theory Spec2Isabelle
  imports Complex_Main
begin

section \<open>Viterbi text segmentation\<close>

text \<open>
  The development embeds the function \<^verbatim>\<open>viterbi_segment(text, P)\<close> of the notebook
  \<^verbatim>\<open>text.ipynb\<close>:
  \<^verbatim>\<open>
  def viterbi_segment(text, P):
      n = len(text)
      words = [''] + list(text)
      best = [1.0] + [0.0] * n
      for i in range(n+1):
          for j in range(0, i):
              w = text[j:i]
              newbest = P[w] * best[i - len(w)]
              if newbest >= best[i]:
                  best[i] = newbest
                  words[i] = w
      sequence = []
      i = len(words) - 1
      while i > 0:
          sequence[0:0] = [words[i]]
          i = i - len(words[i])
      return sequence, best[-1]
  \<close>
  Probabilities are real numbers (type \<open>real\<close>). The loop body is embedded twice: with the
  exact product of the specification's data model (\<open>update_best\<close>), for the properties
  that hold whatever value a product takes, and with the product rounded as the
  multiplication of IEEE 754 binary64 rounds it (\<open>update_best_double\<close>), for the property
  that compares the table with the probabilities of segmentations. A string is a
  list of characters over an arbitrary alphabet \<open>'c\<close>, so that the length of a string
  counts what Python counts; the examples use \<open>char\<close>. Python's
  integers are \<open>int\<close> wherever the code subtracts or indexes with a computed value; the
  counters produced by \<^verbatim>\<open>range\<close> are natural numbers. Every list access of the code is
  a checked access that can raise \<^verbatim>\<open>IndexError\<close>, and the \<^verbatim>\<open>while\<close> loop is a partial
  function, so that raising and not terminating are values of the model.
\<close>

subsection \<open>Python lists and strings\<close>

datatype error = IndexError

text \<open>\<^verbatim>\<open>xs[i]\<close>: a negative index counts from the end, an index out of range raises.\<close>

definition getitem :: "'a list \<Rightarrow> int \<Rightarrow> error + 'a" where
  "getitem xs i =
     (let k = (if i < 0 then i + int (length xs) else i)
      in if 0 \<le> k \<and> k < int (length xs) then Inr (xs ! nat k) else Inl IndexError)"

text \<open>\<^verbatim>\<open>xs[i] = v\<close>, with the same index rule.\<close>

definition setitem :: "'a list \<Rightarrow> int \<Rightarrow> 'a \<Rightarrow> error + 'a list" where
  "setitem xs i v =
     (let k = (if i < 0 then i + int (length xs) else i)
      in if 0 \<le> k \<and> k < int (length xs) then Inr (xs[nat k := v]) else Inl IndexError)"

text \<open>
  \<^verbatim>\<open>text[j:i]\<close> for counters \<open>j\<close> and \<open>i\<close> that are not negative: both ends are clipped
  to the length of the string, and the slice is empty when \<open>i \<le> j\<close>.
\<close>

definition slice :: "'a list \<Rightarrow> nat \<Rightarrow> nat \<Rightarrow> 'a list" where
  "slice xs j i = take (i - j) (drop j xs)"

text \<open>
  A \<^verbatim>\<open>for\<close> loop over a list of values: the body maps the loop state to a new state or
  raises, and the first exception leaves the loop.
\<close>

fun for_each :: "('a \<Rightarrow> 's \<Rightarrow> error + 's) \<Rightarrow> 'a list \<Rightarrow> 's \<Rightarrow> error + 's" where
  "for_each body [] s = Inr s"
| "for_each body (x # xs) s =
     (case body x s of Inl e \<Rightarrow> Inl e | Inr s' \<Rightarrow> for_each body xs s')"

subsection \<open>The segmentation function\<close>

text \<open>
  The model object \<^verbatim>\<open>P\<close> is a value of an arbitrary type \<open>'m\<close>; the subscription
  \<^verbatim>\<open>P[w]\<close> is a method call on it, \<open>lookup m w\<close>, which returns the probability and the
  model as the call leaves it. The working tables are \<^verbatim>\<open>best\<close> and \<^verbatim>\<open>words\<close>.
\<close>

type_synonym ('c, 'm) tables = "real list \<times> 'c list list \<times> 'm"

definition initial_words :: "'c list \<Rightarrow> 'c list list" where
  "initial_words text = [[]] @ map (\<lambda>c. [c]) text"

definition initial_best :: "nat \<Rightarrow> real list" where
  "initial_best n = [1] @ replicate n 0"

text \<open>The body of the inner loop, for the end position \<open>i\<close> and the start position \<open>j\<close>.\<close>

definition update_best ::
  "('m \<Rightarrow> 'c list \<Rightarrow> real \<times> 'm) \<Rightarrow> 'c list \<Rightarrow> nat \<Rightarrow> nat \<Rightarrow>
     ('c, 'm) tables \<Rightarrow> error + ('c, 'm) tables" where
  "update_best lookup text i j s =
     (case s of (best, words, m) \<Rightarrow>
        (let w = slice text j i;
             (p, m') = lookup m w
         in (case getitem best (int i - int (length w)) of
               Inl e \<Rightarrow> Inl e
             | Inr b \<Rightarrow>
                 (let newbest = p * b
                  in (case getitem best (int i) of
                        Inl e \<Rightarrow> Inl e
                      | Inr bi \<Rightarrow>
                          (if newbest \<ge> bi then
                             (case setitem best (int i) newbest of
                                Inl e \<Rightarrow> Inl e
                              | Inr best' \<Rightarrow>
                                  (case setitem words (int i) w of
                                     Inl e \<Rightarrow> Inl e
                                   | Inr words' \<Rightarrow> Inr (best', words', m')))
                           else Inr (best, words, m')))))))"

text \<open>The two nested \<^verbatim>\<open>for\<close> loops, started on the initial tables.\<close>

definition fill_tables ::
  "('m \<Rightarrow> 'c list \<Rightarrow> real \<times> 'm) \<Rightarrow> 'c list \<Rightarrow> 'm \<Rightarrow> error + ('c, 'm) tables" where
  "fill_tables lookup text m =
     (let n = length text
      in for_each (\<lambda>i. for_each (update_best lookup text i) [0..<i]) [0..<n + 1]
           (initial_best n, initial_words text, m))"

text \<open>
  The \<^verbatim>\<open>while\<close> loop that recovers the sequence; its state is the position \<open>i\<close> and the
  sequence built so far, and the final state is returned. \<open>None\<close> is a loop that runs
  forever.
\<close>

partial_function (option) recover ::
  "'c list list \<Rightarrow> int \<Rightarrow> 'c list list \<Rightarrow> (error + int \<times> 'c list list) option" where
  "recover words i sequence =
     (if i > 0 then
        (case getitem words i of
           Inl e \<Rightarrow> Some (Inl e)
         | Inr w \<Rightarrow> recover words (i - int (length w)) ([w] @ sequence))
      else Some (Inr (i, sequence)))"

declare recover.simps [code]

text \<open>
  The whole function on a model with an arbitrary lookup. The result is the returned pair
  together with the model after the call.
\<close>

definition viterbi_segment_with ::
  "('m \<Rightarrow> 'c list \<Rightarrow> real \<times> 'm) \<Rightarrow> 'c list \<Rightarrow> 'm \<Rightarrow>
     (error + ('c list list \<times> real) \<times> 'm) option" where
  "viterbi_segment_with lookup text m =
     (case fill_tables lookup text m of
        Inl e \<Rightarrow> Some (Inl e)
      | Inr (best, words, m') \<Rightarrow>
          (case recover words (int (length words) - 1) [] of
             None \<Rightarrow> None
           | Some (Inl e) \<Rightarrow> Some (Inl e)
           | Some (Inr (i, sequence)) \<Rightarrow>
               (case getitem best (- 1) of
                  Inl e \<Rightarrow> Some (Inl e)
                | Inr p \<Rightarrow> Some (Inr ((sequence, p), m')))))"

text \<open>
  A model whose lookup is a pure function is the function itself: \<^verbatim>\<open>P[w]\<close> is \<open>P w\<close> and
  leaves \<open>P\<close> as it is.
\<close>

definition pure_lookup :: "('c list \<Rightarrow> real) \<Rightarrow> 'c list \<Rightarrow> real \<times> ('c list \<Rightarrow> real)" where
  "pure_lookup P w = (P w, P)"

definition viterbi_segment ::
  "'c list \<Rightarrow> ('c list \<Rightarrow> real) \<Rightarrow> (error + 'c list list \<times> real) option" where
  "viterbi_segment text P = map_option (map_sum id fst) (viterbi_segment_with pure_lookup text P)"

text \<open>
  \<open>dp_tables\<close> is the pair of tables as the two \<^verbatim>\<open>for\<close> loops leave them, for a model
  with a pure lookup. \<open>two_calls\<close> is two calls made one after the other on the same
  text and the same model object, with an arbitrary lookup: the second call finds the
  model as the first one left it, and the results of both calls are returned.
\<close>

definition dp_tables :: "'c list \<Rightarrow> ('c list \<Rightarrow> real) \<Rightarrow> error + real list \<times> 'c list list" where
  "dp_tables text P =
     (case fill_tables pure_lookup text P of
        Inl e \<Rightarrow> Inl e
      | Inr (best, words, m) \<Rightarrow> Inr (best, words))"

definition two_calls ::
  "('m \<Rightarrow> 'c list \<Rightarrow> real \<times> 'm) \<Rightarrow> 'c list \<Rightarrow> 'm \<Rightarrow>
     ((error + 'c list list \<times> real) \<times> (error + 'c list list \<times> real)) option" where
  "two_calls lookup text m =
     (case viterbi_segment_with lookup text m of
        None \<Rightarrow> None
      | Some (Inl e) \<Rightarrow> Some (Inl e, Inl e)
      | Some (Inr (r1, m1)) \<Rightarrow>
          (case viterbi_segment_with lookup text m1 of
             None \<Rightarrow> None
           | Some (Inl e) \<Rightarrow> Some (Inr r1, Inl e)
           | Some (Inr (r2, m2)) \<Rightarrow> Some (Inr r1, Inr r2)))"

subsection \<open>The segmentation function in binary64 arithmetic\<close>

text \<open>
  A Python \<^verbatim>\<open>float\<close> is an IEEE 754 binary64 number, and \<^verbatim>\<open>P[w] * best[j]\<close> is the exact
  product rounded to the nearest such number, ties to the even significand.
  \<open>round_half_even\<close> rounds a real to the nearest integer, ties to the even one. The
  binary64 numbers around \<open>x\<close> are the multiples of \<open>double_ulp x\<close>: the exponent of \<open>x\<close> is
  \<open>\<lfloor>log 2 \<bar>x\<bar>\<rfloor>\<close>, not below \<open>- 1022\<close> (the subnormal numbers share the least exponent), and
  the significand has 52 fraction bits. \<open>round_double\<close> is the rounding of a real of
  magnitude below \<open>2 ^ 1024\<close>, where binary64 does not overflow; the products of
  probabilities in \<open>(0, 1]\<close> lie between \<open>0\<close> and \<open>1\<close>.
\<close>

definition round_half_even :: "real \<Rightarrow> int" where
  "round_half_even y =
     (let f = \<lfloor>y\<rfloor>; d = y - of_int f
      in if d < 1 / 2 then f else if d > 1 / 2 then f + 1 else if even f then f else f + 1)"

definition double_exponent :: "real \<Rightarrow> int" where
  "double_exponent x = max \<lfloor>log 2 \<bar>x\<bar>\<rfloor> (- 1022)"

definition double_ulp :: "real \<Rightarrow> real" where
  "double_ulp x = 2 powr of_int (double_exponent x - 52)"

definition round_double :: "real \<Rightarrow> real" where
  "round_double x =
     (if x = 0 then 0 else double_ulp x * of_int (round_half_even (x / double_ulp x)))"

definition float_mul :: "real \<Rightarrow> real \<Rightarrow> real" where
  "float_mul x y = round_double (x * y)"

text \<open>
  The loop body, the two loops and the whole function once more, for a model with a pure
  lookup, with \<^verbatim>\<open>newbest = P[w] * best[i - len(w)]\<close> computed by \<open>float_mul\<close>. The
  comparison \<^verbatim>\<open>newbest >= best[i]\<close> and the constants \<^verbatim>\<open>1.0\<close> and \<^verbatim>\<open>0.0\<close> are exact in
  binary64.
\<close>

definition update_best_double ::
  "('c list \<Rightarrow> real) \<Rightarrow> 'c list \<Rightarrow> nat \<Rightarrow> nat \<Rightarrow>
     real list \<times> 'c list list \<Rightarrow> error + real list \<times> 'c list list" where
  "update_best_double P text i j s =
     (case s of (best, words) \<Rightarrow>
        (let w = slice text j i
         in (case getitem best (int i - int (length w)) of
               Inl e \<Rightarrow> Inl e
             | Inr b \<Rightarrow>
                 (let newbest = float_mul (P w) b
                  in (case getitem best (int i) of
                        Inl e \<Rightarrow> Inl e
                      | Inr bi \<Rightarrow>
                          (if newbest \<ge> bi then
                             (case setitem best (int i) newbest of
                                Inl e \<Rightarrow> Inl e
                              | Inr best' \<Rightarrow>
                                  (case setitem words (int i) w of
                                     Inl e \<Rightarrow> Inl e
                                   | Inr words' \<Rightarrow> Inr (best', words')))
                           else Inr (best, words)))))))"

definition dp_tables_double ::
  "'c list \<Rightarrow> ('c list \<Rightarrow> real) \<Rightarrow> error + real list \<times> 'c list list" where
  "dp_tables_double text P =
     (let n = length text
      in for_each (\<lambda>i. for_each (update_best_double P text i) [0..<i]) [0..<n + 1]
           (initial_best n, initial_words text))"

definition viterbi_segment_double ::
  "'c list \<Rightarrow> ('c list \<Rightarrow> real) \<Rightarrow> (error + 'c list list \<times> real) option" where
  "viterbi_segment_double text P =
     (case dp_tables_double text P of
        Inl e \<Rightarrow> Some (Inl e)
      | Inr (best, words) \<Rightarrow>
          (case recover words (int (length words) - 1) [] of
             None \<Rightarrow> None
           | Some (Inl e) \<Rightarrow> Some (Inl e)
           | Some (Inr (i, sequence)) \<Rightarrow>
               (case getitem best (- 1) of
                  Inl e \<Rightarrow> Some (Inl e)
                | Inr p \<Rightarrow> Some (Inr (sequence, p)))))"

subsection \<open>Segmentations and their probability\<close>

text \<open>
  The notions of the specification's glossary: a segmentation of a string is a sequence
  of tokens, none of them empty, whose concatenation is the string; its joint
  probability is the product of the probabilities of its tokens.
\<close>

definition spec_segmentation :: "'c list list \<Rightarrow> 'c list \<Rightarrow> bool" where
  "spec_segmentation ws s \<longleftrightarrow> concat ws = s \<and> [] \<notin> set ws"

definition spec_joint_probability :: "('c list \<Rightarrow> real) \<Rightarrow> 'c list list \<Rightarrow> real" where
  "spec_joint_probability P ws = prod_list (map P ws)"

text \<open>
  The joint probability as the code computes it along a segmentation: from \<^verbatim>\<open>1.0\<close>, each
  word in turn multiplies the probability of the words before it, and every product is
  rounded.
\<close>

definition rounded_joint_probability :: "('c list \<Rightarrow> real) \<Rightarrow> 'c list list \<Rightarrow> real" where
  "rounded_joint_probability P ws = foldl (\<lambda>b w. float_mul (P w) b) 1 ws"

subsection \<open>Invariants of the loops\<close>

text \<open>
  \<open>candidate P text best i j\<close> is the value \<^verbatim>\<open>newbest\<close> that the inner loop computes at
  the end position \<open>i\<close> for the start position \<open>j\<close>, read on the table \<open>best\<close>.
\<close>

definition candidate :: "('c list \<Rightarrow> real) \<Rightarrow> 'c list \<Rightarrow> real list \<Rightarrow> nat \<Rightarrow> nat \<Rightarrow> real" where
  "candidate P text best i j = P (slice text j i) * best ! j"

text \<open>
  Row \<open>i\<close> after the start positions below \<open>k\<close>: the entry \<open>best ! i\<close> bounds every
  candidate seen so far, and either the word comes from the last candidate that reached
  the bound, or the row still has its initial content and every candidate was negative.
\<close>

definition row_settled ::
  "('c list \<Rightarrow> real) \<Rightarrow> 'c list \<Rightarrow> real list \<Rightarrow> 'c list list \<Rightarrow> nat \<Rightarrow> nat \<Rightarrow> bool" where
  "row_settled P text best words i k \<longleftrightarrow>
     (\<forall>j<k. candidate P text best i j \<le> best ! i) \<and>
     ((\<exists>j<k. words ! i = slice text j i \<and> candidate P text best i j = best ! i \<and>
             (\<forall>j'<k. j < j' \<longrightarrow> candidate P text best i j' < best ! i))
      \<or> (best ! i = 0 \<and> words ! i = [text ! (i - 1)] \<and>
          (\<forall>j<k. candidate P text best i j < 0)))"

text \<open>
  The state of the loops at the end position \<open>i\<close> and the start position \<open>k\<close>: the model
  is the one of the call, the rows below \<open>i\<close> are settled, row \<open>i\<close> is settled up to
  \<open>k\<close>, and the rows above \<open>i\<close> have their initial content.
\<close>

definition fill_inv ::
  "('c list \<Rightarrow> real) \<Rightarrow> 'm \<Rightarrow> 'c list \<Rightarrow> nat \<Rightarrow> nat \<Rightarrow> ('c, 'm) tables \<Rightarrow> bool" where
  "fill_inv P mdl text i k s \<longleftrightarrow>
     (case s of (best, words, m) \<Rightarrow>
        m = mdl \<and> length best = length text + 1 \<and> length words = length text + 1 \<and>
        best ! 0 = 1 \<and> words ! 0 = [] \<and>
        (\<forall>l. 1 \<le> l \<and> l < i \<longrightarrow> row_settled P text best words l l) \<and>
        (1 \<le> i \<and> i \<le> length text \<longrightarrow> row_settled P text best words i k) \<and>
        (\<forall>l. i < l \<and> l \<le> length text \<longrightarrow> best ! l = 0 \<and> words ! l = [text ! (l - 1)]))"

definition settled :: "('c list \<Rightarrow> real) \<Rightarrow> 'c list \<Rightarrow> real list \<Rightarrow> 'c list list \<Rightarrow> bool" where
  "settled P text best words \<longleftrightarrow>
     length best = length text + 1 \<and> length words = length text + 1 \<and>
     best ! 0 = 1 \<and> words ! 0 = [] \<and>
     (\<forall>i. 1 \<le> i \<and> i \<le> length text \<longrightarrow> row_settled P text best words i i)"

definition suffix_shaped :: "'c list \<Rightarrow> 'c list list \<Rightarrow> bool" where
  "suffix_shaped text words \<longleftrightarrow>
     length words = length text + 1 \<and>
     (\<forall>i. 1 \<le> i \<and> i \<le> length text \<longrightarrow> (\<exists>j<i. words ! i = slice text j i))"

text \<open>
  \<open>follows words i ws\<close>: the list \<open>ws\<close> holds the words that the \<^verbatim>\<open>while\<close> loop reads
  when it starts at position \<open>i\<close>, in the order of reading. Each of them is the entry at
  the current position, is not empty and is no longer than the position, and the last step
  reaches position \<open>0\<close>.
\<close>

fun follows :: "'c list list \<Rightarrow> nat \<Rightarrow> 'c list list \<Rightarrow> bool" where
  "follows words i [] \<longleftrightarrow> i = 0"
| "follows words i (w # ws) \<longleftrightarrow>
     0 < i \<and> w = words ! i \<and> w \<noteq> [] \<and> length w \<le> i \<and> follows words (i - length w) ws"

text \<open>
  The same invariants for the loops in binary64 arithmetic.
\<close>

definition candidate_double ::
  "('c list \<Rightarrow> real) \<Rightarrow> 'c list \<Rightarrow> real list \<Rightarrow> nat \<Rightarrow> nat \<Rightarrow> real" where
  "candidate_double P text best i j = float_mul (P (slice text j i)) (best ! j)"

definition row_double ::
  "('c list \<Rightarrow> real) \<Rightarrow> 'c list \<Rightarrow> real list \<Rightarrow> 'c list list \<Rightarrow> nat \<Rightarrow> nat \<Rightarrow> bool" where
  "row_double P text best words i k \<longleftrightarrow>
     (\<forall>j<k. candidate_double P text best i j \<le> best ! i) \<and>
     ((\<exists>j<k. words ! i = slice text j i \<and> candidate_double P text best i j = best ! i)
      \<or> (best ! i = 0 \<and> words ! i = [text ! (i - 1)] \<and>
          (\<forall>j<k. candidate_double P text best i j < 0)))"

definition fill_inv_double ::
  "('c list \<Rightarrow> real) \<Rightarrow> 'c list \<Rightarrow> nat \<Rightarrow> nat \<Rightarrow> real list \<times> 'c list list \<Rightarrow> bool" where
  "fill_inv_double P text i k s \<longleftrightarrow>
     (case s of (best, words) \<Rightarrow>
        length best = length text + 1 \<and> length words = length text + 1 \<and>
        best ! 0 = 1 \<and> words ! 0 = [] \<and>
        (\<forall>l. 1 \<le> l \<and> l < i \<longrightarrow> row_double P text best words l l) \<and>
        (1 \<le> i \<and> i \<le> length text \<longrightarrow> row_double P text best words i k) \<and>
        (\<forall>l. i < l \<and> l \<le> length text \<longrightarrow> best ! l = 0 \<and> words ! l = [text ! (l - 1)]))"

definition settled_double ::
  "('c list \<Rightarrow> real) \<Rightarrow> 'c list \<Rightarrow> real list \<Rightarrow> 'c list list \<Rightarrow> bool" where
  "settled_double P text best words \<longleftrightarrow>
     length best = length text + 1 \<and> length words = length text + 1 \<and>
     best ! 0 = 1 \<and> words ! 0 = [] \<and>
     (\<forall>i. 1 \<le> i \<and> i \<le> length text \<longrightarrow> row_double P text best words i i)"




subsection \<open>Example models\<close>

text \<open>
  \<open>tie_model\<close> gives the text \<^verbatim>\<open>"ab"\<close> two segmentations of equal probability;
  \<open>zero_model\<close> assigns the probability \<open>0\<close> to every token.
\<close>

definition tie_model :: "string \<Rightarrow> real" where
  "tie_model w = (if w = ''ab'' then 1 / 4 else 1 / 2)"

definition zero_model :: "'c list \<Rightarrow> real" where
  "zero_model w = 0"

definition half_model :: "'c list \<Rightarrow> real" where
  "half_model w = 1 / 2"

text \<open>
  \<open>near_one_model\<close> gives the two one-letter words of \<^verbatim>\<open>"ab"\<close> the binary64 number
  \<open>1 - 1 / 2 ^ 27\<close>, whose square is not a binary64 number. \<open>recording_lookup\<close> is the lookup
  of a model kept as a table of tokens and probabilities that enters a token it has not
  seen with the probability \<open>1 / 2\<close>.
\<close>

definition near_one_model :: "string \<Rightarrow> real" where
  "near_one_model w = (if w = ''ab'' then 1 / 2 else 1 - 1 / 2 ^ 27)"


section \<open>Properties of the embedding\<close>

subsection \<open>List accesses and loops\<close>

lemma getitem_nat: "k < length xs \<Longrightarrow> getitem xs (int k) = Inr (xs ! k)"
  by (simp add: getitem_def)

lemma setitem_nat: "k < length xs \<Longrightarrow> setitem xs (int k) v = Inr (xs[k := v])"
  by (simp add: setitem_def)

lemma getitem_minus_one: "xs \<noteq> [] \<Longrightarrow> getitem xs (- 1) = Inr (xs ! (length xs - 1))"
  by (cases xs) (simp_all add: getitem_def)

lemma length_slice: "i \<le> length xs \<Longrightarrow> length (slice xs j i) = i - j"
  by (simp add: slice_def)

lemma take_append_slice: "j \<le> i \<Longrightarrow> take j xs @ slice xs j i = take i xs"
  by (simp add: slice_def take_add [symmetric])

lemma slice_last: "i < length xs \<Longrightarrow> slice xs i (Suc i) = [xs ! i]"
  by (simp add: slice_def take_Suc_conv_app_nth Cons_nth_drop_Suc [symmetric])

lemma for_each_append:
  "for_each body (xs @ ys) s =
     (case for_each body xs s of Inl e \<Rightarrow> Inl e | Inr s' \<Rightarrow> for_each body ys s')"
  by (induction xs arbitrary: s) (auto split: sum.splits)

lemma for_each_upt:
  assumes "I 0 s"
    and "\<And>k s. k < n \<Longrightarrow> I k s \<Longrightarrow> \<exists>s'. body k s = Inr s' \<and> I (Suc k) s'"
  shows "\<exists>s'. for_each body [0..<n] s = Inr s' \<and> I n s'"
  using assms(2)
proof (induction n)
  case 0
  then show ?case using assms(1) by simp
next
  case (Suc n)
  from Suc obtain s1 where s1: "for_each body [0..<n] s = Inr s1" "I n s1"
    by (metis less_Suc_eq)
  from Suc.prems [of n s1] s1 obtain s2 where "body n s1 = Inr s2" "I (Suc n) s2"
    by auto
  with s1 show ?case by (simp add: for_each_append)
qed

lemma update_best_eq:
  assumes "j < i" "i \<le> length text" "length best = length text + 1"
    "length words = length text + 1"
  shows "update_best lookup text i j (best, words, m) =
     Inr (if fst (lookup m (slice text j i)) * best ! j \<ge> best ! i
          then (best[i := fst (lookup m (slice text j i)) * best ! j],
                words[i := slice text j i], snd (lookup m (slice text j i)))
          else (best, words, snd (lookup m (slice text j i))))"
proof -
  have idx: "int i - int (length (slice text j i)) = int j"
    using assms(1,2) by (simp add: length_slice)
  have "j < length best" "i < length best" "i < length words"
    using assms by simp_all
  then show ?thesis
    by (simp add: update_best_def idx getitem_nat setitem_nat Let_def case_prod_beta)
qed

subsection \<open>The tables after the loops\<close>

lemma row_settled_cong:
  assumes "\<forall>l\<le>i. best' ! l = best ! l" "words' ! i = words ! i" "k \<le> i"
  shows "row_settled P text best' words' i k = row_settled P text best words i k"
proof -
  have "\<And>j. j < k \<Longrightarrow> candidate P text best' i j = candidate P text best i j"
    using assms by (simp add: candidate_def)
  moreover have "best' ! i = best ! i" using assms by simp
  ultimately show ?thesis using assms(2) by (simp add: row_settled_def cong: conj_cong)
qed

lemma row_settled_fresh:
  "best ! i = 0 \<Longrightarrow> words ! i = [text ! (i - 1)] \<Longrightarrow> row_settled P text best words i 0"
  by (simp add: row_settled_def)

lemma row_settled_update:
  assumes rs: "row_settled P text best words i k"
    and ki: "k < i" and len: "i < length best" "i < length words"
    and c: "c = candidate P text best i k" and up: "c \<ge> best ! i"
  shows "row_settled P text (best[i := c]) (words[i := slice text k i]) i (Suc k)"
proof -
  have cand: "\<And>j. j < Suc k \<Longrightarrow> candidate P text (best[i := c]) i j = candidate P text best i j"
    using ki by (simp add: candidate_def)
  have le: "\<forall>j<Suc k. candidate P text best i j \<le> c"
    using rs up c by (auto simp: row_settled_def less_Suc_eq intro: order_trans)
  show ?thesis
    unfolding row_settled_def
    apply (rule conjI)
    using le cand len apply simp
    apply (rule disjI1)
    apply (rule exI [of _ k])
    using cand len c apply simp
    done
qed

lemma row_settled_keep:
  assumes rs: "row_settled P text best words i k"
    and c: "c = candidate P text best i k" and up: "\<not> c \<ge> best ! i"
  shows "row_settled P text best words i (Suc k)"
  using assms unfolding row_settled_def
  by (auto simp: less_Suc_eq)

lemma initial_best_nth:
  "length (initial_best n) = n + 1" "initial_best n ! 0 = 1"
  "0 < l \<Longrightarrow> l \<le> n \<Longrightarrow> initial_best n ! l = 0"
  by (simp_all add: initial_best_def nth_Cons')

lemma initial_words_nth:
  "length (initial_words text) = length text + 1" "initial_words text ! 0 = []"
  "0 < l \<Longrightarrow> l \<le> length text \<Longrightarrow> initial_words text ! l = [text ! (l - 1)]"
  by (simp_all add: initial_words_def nth_Cons')

lemma fill_inv_initial:
  "fill_inv P mdl text 0 0 (initial_best (length text), initial_words text, mdl)"
  by (simp add: fill_inv_def initial_best_nth initial_words_nth)

lemma fill_inv_step:
  assumes pure: "\<forall>w. snd (lookup mdl w) = mdl"
    and i: "1 \<le> i" "i \<le> length text" and k: "k < i"
    and inv: "fill_inv (\<lambda>w. fst (lookup mdl w)) mdl text i k s"
  shows "\<exists>s'. update_best lookup text i k s = Inr s' \<and>
              fill_inv (\<lambda>w. fst (lookup mdl w)) mdl text i (Suc k) s'"
proof -
  let ?P = "\<lambda>w. fst (lookup mdl w)"
  obtain best words m where s: "s = (best, words, m)"
    by (cases s) auto
  from inv s have m: "m = mdl"
    and len: "length best = length text + 1" "length words = length text + 1"
    and zero: "best ! 0 = 1" "words ! 0 = []"
    and below: "\<forall>l. 1 \<le> l \<and> l < i \<longrightarrow> row_settled ?P text best words l l"
    and row: "row_settled ?P text best words i k"
    and above: "\<forall>l. i < l \<and> l \<le> length text \<longrightarrow> best ! l = 0 \<and> words ! l = [text ! (l - 1)]"
    using i by (simp_all add: fill_inv_def)
  let ?c = "candidate ?P text best i k"
  have eq: "update_best lookup text i k s =
      Inr (if ?c \<ge> best ! i then (best[i := ?c], words[i := slice text k i], mdl)
           else (best, words, mdl))"
    using update_best_eq [OF k i(2) len, of lookup mdl] pure
    by (simp add: s m candidate_def)
  show ?thesis
  proof (cases "?c \<ge> best ! i")
    case True
    have ilen: "i < length best" "i < length words" using i len by simp_all
    have r: "row_settled ?P text (best[i := ?c]) (words[i := slice text k i]) i (Suc k)"
      using row_settled_update [OF row k ilen refl True] .
    have b: "\<forall>l. 1 \<le> l \<and> l < i \<longrightarrow>
        row_settled ?P text (best[i := ?c]) (words[i := slice text k i]) l l"
    proof (intro allI impI)
      fix l assume l: "1 \<le> l \<and> l < i"
      have "row_settled ?P text (best[i := ?c]) (words[i := slice text k i]) l l =
          row_settled ?P text best words l l"
        by (rule row_settled_cong) (use l in auto)
      with below l show "row_settled ?P text (best[i := ?c]) (words[i := slice text k i]) l l"
        by blast
    qed
    have "fill_inv ?P mdl text i (Suc k) (best[i := ?c], words[i := slice text k i], mdl)"
      unfolding fill_inv_def using len zero i r b above by simp
    with eq True show ?thesis by simp
  next
    case False
    have "row_settled ?P text best words i (Suc k)"
      using row_settled_keep [OF row refl False] .
    then have "fill_inv ?P mdl text i (Suc k) (best, words, mdl)"
      unfolding fill_inv_def using len zero below above by simp
    with eq False show ?thesis by simp
  qed
qed

lemma fill_inv_row:
  assumes pure: "\<forall>w. snd (lookup mdl w) = mdl"
    and i: "i \<le> length text"
    and inv: "fill_inv (\<lambda>w. fst (lookup mdl w)) mdl text i 0 s"
  shows "\<exists>s'. for_each (update_best lookup text i) [0..<i] s = Inr s' \<and>
              fill_inv (\<lambda>w. fst (lookup mdl w)) mdl text (Suc i) 0 s'"
proof (cases "i = 0")
  case True
  with inv show ?thesis
    by (auto simp: fill_inv_def row_settled_fresh split: prod.splits)
next
  case False
  let ?P = "\<lambda>w. fst (lookup mdl w)"
  from False have i1: "1 \<le> i" by simp
  have "\<exists>s'. for_each (update_best lookup text i) [0..<i] s = Inr s' \<and> fill_inv ?P mdl text i i s'"
    by (rule for_each_upt [where I = "fill_inv ?P mdl text i"])
      (use inv fill_inv_step [where lookup = lookup and mdl = mdl, OF pure i1 i] in auto)
  then obtain s' where s': "for_each (update_best lookup text i) [0..<i] s = Inr s'"
    "fill_inv ?P mdl text i i s'" by blast
  from s'(2) i1 i have "fill_inv ?P mdl text (Suc i) 0 s'"
    by (auto simp: fill_inv_def row_settled_fresh less_Suc_eq split: prod.splits)
  with s'(1) show ?thesis by blast
qed

lemma fill_tables_settled:
  assumes pure: "\<forall>w. snd (lookup mdl w) = mdl"
  shows "\<exists>best words. fill_tables lookup text mdl = Inr (best, words, mdl) \<and>
           settled (\<lambda>w. fst (lookup mdl w)) text best words"
proof -
  let ?P = "\<lambda>w. fst (lookup mdl w)"
  let ?n = "length text"
  have "\<exists>s'. for_each (\<lambda>i. for_each (update_best lookup text i) [0..<i]) [0..<?n + 1]
            (initial_best ?n, initial_words text, mdl) = Inr s' \<and>
          fill_inv ?P mdl text (?n + 1) 0 s'"
    by (rule for_each_upt [where I = "\<lambda>i. fill_inv ?P mdl text i 0"])
      (use fill_inv_initial fill_inv_row [where lookup = lookup and mdl = mdl, OF pure] in auto)
  then obtain s' where s': "fill_tables lookup text mdl = Inr s'"
    "fill_inv ?P mdl text (?n + 1) 0 s'"
    by (auto simp: fill_tables_def)
  obtain best words m where "s' = (best, words, m)" by (cases s') auto
  with s' show ?thesis
    by (auto simp: fill_inv_def settled_def)
qed

subsection \<open>Recovering the sequence\<close>

lemma slice_nonempty: "j < i \<Longrightarrow> i \<le> length xs \<Longrightarrow> slice xs j i \<noteq> []"
  by (auto simp: slice_def)

lemma settled_suffix_shaped:
  assumes "settled P text best words"
  shows "suffix_shaped text words"
  unfolding suffix_shaped_def
proof (intro conjI allI impI)
  show "length words = length text + 1" using assms by (simp add: settled_def)
next
  fix i assume i: "1 \<le> i \<and> i \<le> length text"
  with assms have "row_settled P text best words i i" by (simp add: settled_def)
  then consider j where "j < i" "words ! i = slice text j i" | "words ! i = [text ! (i - 1)]"
    by (auto simp: row_settled_def)
  then show "\<exists>j<i. words ! i = slice text j i"
  proof cases
    case 1 then show ?thesis by blast
  next
    case 2
    have "slice text (i - 1) (Suc (i - 1)) = [text ! (i - 1)]"
      by (rule slice_last) (use i in arith)
    with 2 i show ?thesis by (intro exI [of _ "i - 1"]) simp
  qed
qed

lemma suffix_shaped_word:
  assumes "suffix_shaped text words" "1 \<le> i" "i \<le> length text"
  shows "words ! i \<noteq> []" "length (words ! i) \<le> i"
    "words ! i = slice text (i - length (words ! i)) i"
proof -
  from assms obtain j where j: "j < i" "words ! i = slice text j i"
    by (auto simp: suffix_shaped_def)
  then have len: "length (words ! i) = i - j" using assms(3) by (simp add: length_slice)
  show "words ! i \<noteq> []" using j assms(3) by (simp add: slice_nonempty)
  show "length (words ! i) \<le> i" using len by simp
  show "words ! i = slice text (i - length (words ! i)) i" using j len by simp
qed

lemma recover_follows:
  assumes sh: "suffix_shaped text words"
  shows "i \<le> length text \<Longrightarrow>
    \<exists>ws. recover words (int i) acc = Some (Inr (0, rev ws @ acc)) \<and> follows words i ws"
proof (induction i arbitrary: acc rule: less_induct)
  case (less i)
  show ?case
  proof (cases "i = 0")
    case True
    then have "recover words (int i) acc = Some (Inr (0, rev [] @ acc))"
      by (simp add: recover.simps)
    with True show ?thesis by (intro exI [of _ "[]"]) simp
  next
    case False
    let ?w = "words ! i"
    from False less.prems have i: "1 \<le> i" "i \<le> length text" by simp_all
    note w = suffix_shaped_word [OF sh i]
    have lt: "i - length ?w < i" using w(1) i by (cases ?w) auto
    have "i < length words" using sh i by (simp add: suffix_shaped_def)
    then have get: "getitem words (int i) = Inr ?w" by (rule getitem_nat)
    have idx: "int i - int (length ?w) = int (i - length ?w)" using w(2) by simp
    have "i - length ?w \<le> length text" using less.prems by arith
    from less.IH [OF lt this, of "?w # acc"]
    obtain ws where ws: "recover words (int (i - length ?w)) (?w # acc) = Some (Inr (0, rev ws @ ?w # acc))"
      "follows words (i - length ?w) ws" by auto
    have "recover words (int i) acc = Some (Inr (0, rev (?w # ws) @ acc))"
      using False ws(1) by (subst recover.simps) (simp add: get idx)
    moreover have "follows words i (?w # ws)" using ws(2) w i by simp
    ultimately show ?thesis by blast
  qed
qed

lemma follows_concat:
  assumes sh: "suffix_shaped text words"
  shows "follows words i ws \<Longrightarrow> i \<le> length text \<Longrightarrow> concat (rev ws) = take i text"
proof (induction ws arbitrary: i)
  case Nil
  then show ?case by simp
next
  case (Cons w ws)
  from Cons.prems(1) have "0 < i \<and> w = words ! i \<and> w \<noteq> [] \<and> length w \<le> i \<and>
      follows words (i - length w) ws" by auto
  with Cons.prems(2) have i: "1 \<le> i" "i \<le> length text" and w: "w = words ! i" "length w \<le> i"
    and f: "follows words (i - length w) ws" by auto
  from Cons.IH [OF f] i have "concat (rev ws) = take (i - length w) text" by simp
  moreover have "take (i - length w) text @ slice text (i - length w) i = take i text"
    by (rule take_append_slice) simp
  moreover have "w = slice text (i - length w) i"
    using suffix_shaped_word(3) [OF sh i] w by simp
  ultimately show ?case by simp
qed

lemma follows_nonempty: "follows words i ws \<Longrightarrow> [] \<notin> set ws"
  by (induction ws arbitrary: i) auto

lemma follows_entries:
  "follows words i ws \<Longrightarrow> w \<in> set ws \<Longrightarrow> \<exists>l. 1 \<le> l \<and> l \<le> i \<and> w = words ! l"
proof (induction ws arbitrary: i)
  case Nil
  then show ?case by simp
next
  case (Cons v ws)
  show ?case
  proof (cases "w = v")
    case True
    with Cons.prems show ?thesis by (intro exI [of _ i]) simp
  next
    case False
    from Cons.prems(1) have "follows words (i - length v) ws" by auto
    moreover from False Cons.prems(2) have "w \<in> set ws" by simp
    ultimately have "\<exists>l. 1 \<le> l \<and> l \<le> i - length v \<and> w = words ! l" by (rule Cons.IH)
    then obtain l where "1 \<le> l" "l \<le> i - length v" "w = words ! l" by blast
    then show ?thesis by (intro exI [of _ l]) simp
  qed
qed

lemma viterbi_segment_with_result:
  assumes pure: "\<forall>w. snd (lookup mdl w) = mdl"
  shows "\<exists>best words ws.
      fill_tables lookup text mdl = Inr (best, words, mdl) \<and>
      settled (\<lambda>w. fst (lookup mdl w)) text best words \<and>
      recover words (int (length words) - 1) [] = Some (Inr (0, rev ws)) \<and>
      follows words (length text) ws \<and>
      viterbi_segment_with lookup text mdl = Some (Inr ((rev ws, best ! length text), mdl))"
proof -
  from fill_tables_settled [where lookup = lookup and mdl = mdl, OF pure]
  obtain best words where fill: "fill_tables lookup text mdl = Inr (best, words, mdl)"
    and st: "settled (\<lambda>w. fst (lookup mdl w)) text best words" by blast
  have sh: "suffix_shaped text words" using st by (rule settled_suffix_shaped)
  have len: "length words = length text + 1" "length best = length text + 1"
    using st by (simp_all add: settled_def)
  from recover_follows [OF sh order_refl, of "[]"]
  obtain ws where ws: "recover words (int (length text)) [] = Some (Inr (0, rev ws))"
    "follows words (length text) ws" by auto
  have start: "int (length words) - 1 = int (length text)" using len by simp
  have "best \<noteq> []" using len by auto
  then have "getitem best (- 1) = Inr (best ! length text)"
    using getitem_minus_one [of best] len by simp
  then have "viterbi_segment_with lookup text mdl = Some (Inr ((rev ws, best ! length text), mdl))"
    by (simp add: viterbi_segment_with_def fill start ws(1))
  with fill st ws start show ?thesis by auto
qed

subsection \<open>The function on a model with a pure lookup\<close>

lemma viterbi_segment_result:
  "\<exists>best words ws.
      dp_tables text P = Inr (best, words) \<and> settled P text best words \<and>
      recover words (int (length words) - 1) [] = Some (Inr (0, rev ws)) \<and>
      follows words (length text) ws \<and>
      viterbi_segment text P = Some (Inr (rev ws, best ! length text))"
proof -
  have "\<forall>w. snd (pure_lookup P w) = P" by (simp add: pure_lookup_def)
  from viterbi_segment_with_result [where lookup = pure_lookup and mdl = P, OF this, of "text"]
  obtain best words ws where r: "fill_tables pure_lookup text P = Inr (best, words, P)"
    "settled (\<lambda>w. fst (pure_lookup P w)) text best words"
    "recover words (int (length words) - 1) [] = Some (Inr (0, rev ws))"
    "follows words (length text) ws"
    "viterbi_segment_with pure_lookup text P = Some (Inr ((rev ws, best ! length text), P))"
    by blast
  have "(\<lambda>w. fst (pure_lookup P w)) = P" by (simp add: pure_lookup_def)
  with r(2) have "settled P text best words" by simp
  moreover have "dp_tables text P = Inr (best, words)" by (simp add: dp_tables_def r(1))
  moreover have "viterbi_segment text P = Some (Inr (rev ws, best ! length text))"
    by (simp add: viterbi_segment_def r(5))
  ultimately show ?thesis using r(3,4) by blast
qed

subsection \<open>Values of the table\<close>

lemma settled_row:
  "settled P text best words \<Longrightarrow> 1 \<le> i \<Longrightarrow> i \<le> length text \<Longrightarrow> row_settled P text best words i i"
  by (simp add: settled_def)


lemma settled_nonneg:
  assumes st: "settled P text best words" and P: "\<forall>w. 0 \<le> P w"
  shows "i \<le> length text \<Longrightarrow> 0 \<le> best ! i"
proof (induction i rule: less_induct)
  case (less i)
  show ?case
  proof (cases "i = 0")
    case True
    with st show ?thesis by (simp add: settled_def)
  next
    case False
    with less.prems have "row_settled P text best words i i" by (intro settled_row [OF st]) auto
    then consider j where "j < i" "P (slice text j i) * best ! j = best ! i" | "best ! i = 0"
      by (auto simp: row_settled_def candidate_def)
    then show ?thesis
    proof cases
      case 1
      from less.IH [OF 1(1)] less.prems 1(1) have "0 \<le> best ! j" by simp
      with P have "0 \<le> P (slice text j i) * best ! j" by simp
      with 1(2) show ?thesis by simp
    next
      case 2 then show ?thesis by simp
    qed
  qed
qed






lemma singletons_concat:
  "\<forall>w\<in>set ws. length w = 1 \<Longrightarrow> ws = map (\<lambda>c. [c]) (concat ws)"
proof (induction ws)
  case Nil
  show ?case by simp
next
  case (Cons w ws)
  then obtain c where "w = [c]" by (cases w) auto
  with Cons show ?case by simp
qed

lemma settled_zero_model:
  assumes st: "settled zero_model text best words" and i: "1 \<le> i" "i \<le> length text"
  shows "best ! i = 0 \<and> words ! i = [text ! (i - 1)]"
proof -
  have row: "row_settled zero_model text best words i i" using st i by (rule settled_row)
  have c: "\<And>j. candidate zero_model text best i j = 0"
    by (simp add: candidate_def zero_model_def)
  from row c consider j where "j < i" "words ! i = slice text j i" "best ! i = 0"
      "\<forall>j'<i. \<not> j < j'"
    | "best ! i = 0" "words ! i = [text ! (i - 1)]"
    by (auto simp: row_settled_def)
  then show ?thesis
  proof cases
    case 1
    have "i - 1 < i" using i(1) by simp
    with 1(4) have "\<not> j < i - 1" by blast
    with 1(1) have "j = i - 1" by simp
    moreover have "slice text (i - 1) (Suc (i - 1)) = [text ! (i - 1)]"
      by (rule slice_last) (use i in arith)
    ultimately show ?thesis using 1(2,3) i(1) by simp
  next
    case 2 then show ?thesis by simp
  qed
qed

subsection \<open>Rounding to binary64\<close>

lemma round_half_even_cases:
  "round_half_even y = \<lfloor>y\<rfloor> \<or> round_half_even y = \<lfloor>y\<rfloor> + 1"
  by (simp add: round_half_even_def Let_def)

lemma round_half_even_of_int: "round_half_even (of_int n) = n"
  by (simp add: round_half_even_def)

lemma round_half_even_mono:
  assumes "a \<le> b"
  shows "round_half_even a \<le> round_half_even b"
proof (cases "\<lfloor>a\<rfloor> = \<lfloor>b\<rfloor>")
  case True
  with assms have "a - of_int \<lfloor>a\<rfloor> \<le> b - of_int \<lfloor>b\<rfloor>" by simp
  with True show ?thesis by (auto simp: round_half_even_def Let_def)
next
  case False
  with assms have "\<lfloor>a\<rfloor> < \<lfloor>b\<rfloor>" by (simp add: floor_mono order.strict_iff_order)
  moreover have "round_half_even a \<le> \<lfloor>a\<rfloor> + 1" using round_half_even_cases [of a] by auto
  moreover have "\<lfloor>b\<rfloor> \<le> round_half_even b" using round_half_even_cases [of b] by auto
  ultimately show ?thesis by linarith
qed

lemma double_ulp_pos: "0 < double_ulp x"
  by (simp add: double_ulp_def)

lemma double_exponent_mono:
  assumes "0 < x" "x \<le> y"
  shows "double_exponent x \<le> double_exponent y"
proof -
  have "log 2 x \<le> log 2 y" using assms by simp
  then have "\<lfloor>log 2 x\<rfloor> \<le> \<lfloor>log 2 y\<rfloor>" by (rule floor_mono)
  with assms show ?thesis by (simp add: double_exponent_def)
qed

lemma below_next_power:
  assumes "0 < x"
  shows "x < 2 powr of_int (double_exponent x + 1)"
proof -
  have "log 2 x < of_int \<lfloor>log 2 x\<rfloor> + 1" by linarith
  also have "\<dots> \<le> of_int (double_exponent x + 1)"
    using assms by (simp add: double_exponent_def)
  finally have "log 2 x < of_int (double_exponent x + 1)" .
  with assms show ?thesis by (simp add: log_less_iff)
qed

lemma above_own_power:
  assumes "0 < x" "- 1022 < double_exponent x"
  shows "2 powr of_int (double_exponent x) \<le> x"
proof -
  from assms have "double_exponent x = \<lfloor>log 2 x\<rfloor>"
    by (simp add: double_exponent_def max_def split: if_splits)
  then have "of_int (double_exponent x) \<le> log 2 x" by simp
  with assms(1) show ?thesis by (simp add: le_log_iff)
qed

lemma ulp_times: "double_ulp x * 2 ^ n = 2 powr of_int (double_exponent x - 52 + int n)"
proof -
  have "(2::real) ^ n = 2 powr of_int (int n)" by (simp add: powr_realpow)
  then show ?thesis by (simp add: double_ulp_def powr_add [symmetric])
qed

lemma round_double_nonneg:
  assumes "0 \<le> x"
  shows "0 \<le> round_double x"
proof (cases "x = 0")
  case True
  then show ?thesis by (simp add: round_double_def)
next
  case False
  have "0 \<le> x / double_ulp x" using assms double_ulp_pos [of x] by simp
  then have "round_half_even 0 \<le> round_half_even (x / double_ulp x)"
    by (rule round_half_even_mono)
  moreover have "round_half_even 0 = 0" using round_half_even_of_int [of 0] by simp
  ultimately have "0 \<le> round_half_even (x / double_ulp x)" by simp
  with double_ulp_pos [of x] False show ?thesis by (simp add: round_double_def)
qed

lemma round_half_even_bounds:
  assumes "0 < u"
  shows "x \<le> u * of_int n \<Longrightarrow> u * of_int (round_half_even (x / u)) \<le> u * of_int n"
    and "u * of_int n \<le> x \<Longrightarrow> u * of_int n \<le> u * of_int (round_half_even (x / u))"
proof -
  assume "x \<le> u * of_int n"
  then have "x / u \<le> of_int n" using assms by (simp add: pos_divide_le_eq mult.commute)
  then have "round_half_even (x / u) \<le> round_half_even (of_int n)"
    by (rule round_half_even_mono)
  then have "round_half_even (x / u) \<le> n" by (simp only: round_half_even_of_int)
  then have "real_of_int (round_half_even (x / u)) \<le> of_int n" by simp
  then show "u * of_int (round_half_even (x / u)) \<le> u * of_int n"
    using assms by simp
next
  assume "u * of_int n \<le> x"
  then have "of_int n \<le> x / u" using assms by (simp add: pos_le_divide_eq mult.commute)
  then have "round_half_even (of_int n) \<le> round_half_even (x / u)"
    by (rule round_half_even_mono)
  then have "n \<le> round_half_even (x / u)" by (simp only: round_half_even_of_int)
  then have "of_int n \<le> real_of_int (round_half_even (x / u))" by simp
  then show "u * of_int n \<le> u * of_int (round_half_even (x / u))"
    using assms by simp
qed

lemma ulp_times_int:
  "double_ulp x * of_int (2 ^ n) = 2 powr of_int (double_exponent x - 52 + int n)"
  using ulp_times [of x n] by simp

lemma round_double_upper:
  assumes "0 < x"
  shows "round_double x \<le> 2 powr of_int (double_exponent x + 1)"
proof -
  have e: "double_exponent x - 52 + int 53 = double_exponent x + 1" by simp
  have u: "double_ulp x * of_int (2 ^ 53) = 2 powr of_int (double_exponent x + 1)"
    unfolding ulp_times_int e ..
  have "x \<le> double_ulp x * of_int (2 ^ 53)"
    unfolding u using below_next_power [OF assms] by simp
  from round_half_even_bounds(1) [OF double_ulp_pos this]
  have "double_ulp x * of_int (round_half_even (x / double_ulp x)) \<le>
      2 powr of_int (double_exponent x + 1)"
    unfolding u .
  with assms show ?thesis by (simp only: round_double_def) simp
qed

lemma round_double_lower:
  assumes "0 < x" "- 1022 < double_exponent x"
  shows "2 powr of_int (double_exponent x) \<le> round_double x"
proof -
  have e: "double_exponent x - 52 + int 52 = double_exponent x" by simp
  have u: "double_ulp x * of_int (2 ^ 52) = 2 powr of_int (double_exponent x)"
    unfolding ulp_times_int e ..
  have "double_ulp x * of_int (2 ^ 52) \<le> x"
    unfolding u using above_own_power [OF assms] .
  from round_half_even_bounds(2) [OF double_ulp_pos this]
  have "2 powr of_int (double_exponent x) \<le>
      double_ulp x * of_int (round_half_even (x / double_ulp x))"
    unfolding u .
  with assms show ?thesis by (simp only: round_double_def) simp
qed

lemma round_double_mono:
  assumes "0 \<le> x" "x \<le> y"
  shows "round_double x \<le> round_double y"
proof (cases "x = 0")
  case True
  with assms round_double_nonneg [of y] show ?thesis by (simp add: round_double_def)
next
  case False
  with assms have x: "0 < x" and y: "0 < y" by simp_all
  have le: "double_exponent x \<le> double_exponent y" using x assms(2) by (rule double_exponent_mono)
  show ?thesis
  proof (cases "double_exponent x = double_exponent y")
    case True
    then have u: "double_ulp y = double_ulp x" by (simp add: double_ulp_def)
    have "x / double_ulp x \<le> y / double_ulp x"
      using assms(2) double_ulp_pos [of x] by (simp add: divide_right_mono)
    then have "round_half_even (x / double_ulp x) \<le> round_half_even (y / double_ulp x)"
      by (rule round_half_even_mono)
    then have "double_ulp x * of_int (round_half_even (x / double_ulp x))
        \<le> double_ulp x * of_int (round_half_even (y / double_ulp x))"
      using double_ulp_pos [of x] by simp
    with x y u show ?thesis by (simp add: round_double_def)
  next
    case False
    with le have lt: "double_exponent x + 1 \<le> double_exponent y" by simp
    have "- 1022 \<le> double_exponent x" by (simp add: double_exponent_def)
    with lt have "- 1022 < double_exponent y" by simp
    from round_double_lower [OF y this]
    have "2 powr of_int (double_exponent y) \<le> round_double y" .
    moreover have "2 powr of_int (double_exponent x + 1) \<le> (2::real) powr of_int (double_exponent y)"
      using lt by (simp del: of_int_add)
    moreover note round_double_upper [OF x]
    ultimately show ?thesis by linarith
  qed
qed

lemma float_mul_nonneg: "0 \<le> x \<Longrightarrow> 0 \<le> y \<Longrightarrow> 0 \<le> float_mul x y"
  by (simp add: float_mul_def round_double_nonneg)

lemma float_mul_mono: "0 \<le> p \<Longrightarrow> 0 \<le> a \<Longrightarrow> a \<le> b \<Longrightarrow> float_mul p a \<le> float_mul p b"
  unfolding float_mul_def by (intro round_double_mono) (simp_all add: mult_left_mono)

lemma round_double_by_ulp:
  assumes "x \<noteq> 0" "double_ulp x = 1 / of_int n" "0 < n"
  shows "round_double x = of_int (round_half_even (x * of_int n)) / of_int n"
proof -
  have "x / double_ulp x = x * of_int n" by (simp add: assms(2))
  then show ?thesis using assms(1) by (simp add: round_double_def assms(2))
qed

lemma double_ulp_unit:
  assumes "1 / 2 \<le> x" "x < 1"
  shows "double_ulp x = 1 / of_int (2 ^ 53)"
proof -
  have "\<lfloor>log 2 x\<rfloor> = - 1"
    using assms by (subst floor_log_eq_powr_iff) (simp_all add: powr_minus)
  then have "double_exponent x = - 1" using assms by (simp add: double_exponent_def)
  then have "double_ulp x = 2 powr (- real 53)" by (simp add: double_ulp_def)
  also have "\<dots> = 1 / 2 ^ 53"
    unfolding powr_minus powr_realpow [OF zero_less_numeral] by (simp only: inverse_eq_divide)
  finally show ?thesis by simp
qed

lemma round_double_unit:
  assumes "1 / 2 \<le> x" "x < 1"
  shows "round_double x = of_int (round_half_even (x * 2 ^ 53)) / 2 ^ 53"
proof -
  have "x \<noteq> 0" using assms by auto
  from round_double_by_ulp [OF this double_ulp_unit [OF assms]] show ?thesis by simp
qed

lemma round_double_one: "round_double 1 = 1"
proof -
  have "double_exponent 1 = 0" by (simp add: double_exponent_def)
  then have "double_ulp 1 = 2 powr (- real 52)" by (simp add: double_ulp_def)
  also have "\<dots> = 1 / 2 ^ 52"
    unfolding powr_minus powr_realpow [OF zero_less_numeral] by (simp only: inverse_eq_divide)
  finally have "double_ulp 1 = 1 / of_int (2 ^ 52)" by simp
  from round_double_by_ulp [OF _ this] have
    "round_double 1 = of_int (round_half_even (1 * of_int (2 ^ 52))) / of_int (2 ^ 52)" by simp
  also have "1 * real_of_int (2 ^ 52) = of_int (2 ^ 52)" by simp
  finally show ?thesis unfolding round_half_even_of_int by simp
qed

subsection \<open>The tables in binary64 arithmetic\<close>

lemma update_best_double_eq:
  assumes "j < i" "i \<le> length text" "length best = length text + 1"
    "length words = length text + 1"
  shows "update_best_double P text i j (best, words) =
     Inr (if float_mul (P (slice text j i)) (best ! j) \<ge> best ! i
          then (best[i := float_mul (P (slice text j i)) (best ! j)], words[i := slice text j i])
          else (best, words))"
proof -
  have idx: "int i - int (length (slice text j i)) = int j"
    using assms(1,2) by (simp add: length_slice)
  have "j < length best" "i < length best" "i < length words"
    using assms by simp_all
  then show ?thesis
    by (simp add: update_best_double_def idx getitem_nat setitem_nat Let_def)
qed

lemma row_double_cong:
  assumes "\<forall>l\<le>i. best' ! l = best ! l" "words' ! i = words ! i" "k \<le> i"
  shows "row_double P text best' words' i k = row_double P text best words i k"
proof -
  have "\<And>j. j < k \<Longrightarrow> candidate_double P text best' i j = candidate_double P text best i j"
    using assms by (simp add: candidate_double_def)
  moreover have "best' ! i = best ! i" using assms by simp
  ultimately show ?thesis using assms(2) by (simp add: row_double_def cong: conj_cong)
qed

lemma row_double_fresh:
  "best ! i = 0 \<Longrightarrow> words ! i = [text ! (i - 1)] \<Longrightarrow> row_double P text best words i 0"
  by (simp add: row_double_def)

lemma row_double_update:
  assumes rs: "row_double P text best words i k"
    and ki: "k < i" and len: "i < length best" "i < length words"
    and c: "c = candidate_double P text best i k" and up: "c \<ge> best ! i"
  shows "row_double P text (best[i := c]) (words[i := slice text k i]) i (Suc k)"
proof -
  have cand: "\<And>j. j < Suc k \<Longrightarrow>
      candidate_double P text (best[i := c]) i j = candidate_double P text best i j"
    using ki by (simp add: candidate_double_def)
  have le: "\<forall>j<Suc k. candidate_double P text best i j \<le> c"
    using rs up c by (auto simp: row_double_def less_Suc_eq intro: order_trans)
  show ?thesis
    unfolding row_double_def
    apply (rule conjI)
    using le cand len apply simp
    apply (rule disjI1)
    apply (rule exI [of _ k])
    using cand len c apply simp
    done
qed

lemma row_double_keep:
  assumes rs: "row_double P text best words i k"
    and c: "c = candidate_double P text best i k" and up: "\<not> c \<ge> best ! i"
  shows "row_double P text best words i (Suc k)"
  using assms unfolding row_double_def
  by (auto simp: less_Suc_eq)

lemma fill_inv_double_initial:
  "fill_inv_double P text 0 0 (initial_best (length text), initial_words text)"
  by (simp add: fill_inv_double_def initial_best_nth initial_words_nth)

lemma fill_inv_double_step:
  assumes i: "1 \<le> i" "i \<le> length text" and k: "k < i"
    and inv: "fill_inv_double P text i k s"
  shows "\<exists>s'. update_best_double P text i k s = Inr s' \<and> fill_inv_double P text i (Suc k) s'"
proof -
  obtain best words where s: "s = (best, words)"
    by (cases s) auto
  from inv s have len: "length best = length text + 1" "length words = length text + 1"
    and zero: "best ! 0 = 1" "words ! 0 = []"
    and below: "\<forall>l. 1 \<le> l \<and> l < i \<longrightarrow> row_double P text best words l l"
    and row: "row_double P text best words i k"
    and above: "\<forall>l. i < l \<and> l \<le> length text \<longrightarrow> best ! l = 0 \<and> words ! l = [text ! (l - 1)]"
    using i by (simp_all add: fill_inv_double_def)
  let ?c = "candidate_double P text best i k"
  have eq: "update_best_double P text i k s =
      Inr (if ?c \<ge> best ! i then (best[i := ?c], words[i := slice text k i])
           else (best, words))"
    using update_best_double_eq [OF k i(2) len, of P]
    by (simp add: s candidate_double_def)
  show ?thesis
  proof (cases "?c \<ge> best ! i")
    case True
    have ilen: "i < length best" "i < length words" using i len by simp_all
    have r: "row_double P text (best[i := ?c]) (words[i := slice text k i]) i (Suc k)"
      using row_double_update [OF row k ilen refl True] .
    have b: "\<forall>l. 1 \<le> l \<and> l < i \<longrightarrow>
        row_double P text (best[i := ?c]) (words[i := slice text k i]) l l"
    proof (intro allI impI)
      fix l assume l: "1 \<le> l \<and> l < i"
      have "row_double P text (best[i := ?c]) (words[i := slice text k i]) l l =
          row_double P text best words l l"
        by (rule row_double_cong) (use l in auto)
      with below l show "row_double P text (best[i := ?c]) (words[i := slice text k i]) l l"
        by blast
    qed
    have "fill_inv_double P text i (Suc k) (best[i := ?c], words[i := slice text k i])"
      unfolding fill_inv_double_def using len zero i r b above by simp
    with eq True show ?thesis by simp
  next
    case False
    have "row_double P text best words i (Suc k)"
      using row_double_keep [OF row refl False] .
    then have "fill_inv_double P text i (Suc k) (best, words)"
      unfolding fill_inv_double_def using len zero below above by simp
    with eq False show ?thesis by simp
  qed
qed

lemma fill_inv_double_row:
  assumes i: "i \<le> length text"
    and inv: "fill_inv_double P text i 0 s"
  shows "\<exists>s'. for_each (update_best_double P text i) [0..<i] s = Inr s' \<and>
              fill_inv_double P text (Suc i) 0 s'"
proof (cases "i = 0")
  case True
  with inv show ?thesis
    by (auto simp: fill_inv_double_def row_double_fresh split: prod.splits)
next
  case False
  from False have i1: "1 \<le> i" by simp
  have "\<exists>s'. for_each (update_best_double P text i) [0..<i] s = Inr s' \<and>
      fill_inv_double P text i i s'"
    by (rule for_each_upt [where I = "fill_inv_double P text i"])
      (use inv fill_inv_double_step [OF i1 i] in auto)
  then obtain s' where s': "for_each (update_best_double P text i) [0..<i] s = Inr s'"
    "fill_inv_double P text i i s'" by blast
  from s'(2) i1 i have "fill_inv_double P text (Suc i) 0 s'"
    by (auto simp: fill_inv_double_def row_double_fresh less_Suc_eq split: prod.splits)
  with s'(1) show ?thesis by blast
qed

lemma dp_tables_double_settled:
  "\<exists>best words. dp_tables_double text P = Inr (best, words) \<and> settled_double P text best words"
proof -
  let ?n = "length text"
  have "\<exists>s'. for_each (\<lambda>i. for_each (update_best_double P text i) [0..<i]) [0..<?n + 1]
            (initial_best ?n, initial_words text) = Inr s' \<and>
          fill_inv_double P text (?n + 1) 0 s'"
  proof (rule for_each_upt [where I = "\<lambda>i. fill_inv_double P text i 0"])
    show "fill_inv_double P text 0 0 (initial_best ?n, initial_words text)"
      by (rule fill_inv_double_initial)
  next
    fix k s assume "k < ?n + 1" "fill_inv_double P text k 0 s"
    then show "\<exists>s'. for_each (update_best_double P text k) [0..<k] s = Inr s' \<and>
        fill_inv_double P text (Suc k) 0 s'"
      by (intro fill_inv_double_row) simp_all
  qed
  then obtain s' where s': "dp_tables_double text P = Inr s'"
    "fill_inv_double P text (?n + 1) 0 s'"
    by (auto simp: dp_tables_double_def)
  obtain best words where "s' = (best, words)" by (cases s') auto
  with s' show ?thesis
    by (auto simp: fill_inv_double_def settled_double_def)
qed

lemma settled_double_row:
  "settled_double P text best words \<Longrightarrow> 1 \<le> i \<Longrightarrow> i \<le> length text \<Longrightarrow>
     row_double P text best words i i"
  by (simp add: settled_double_def)

lemma settled_double_suffix_shaped:
  assumes "settled_double P text best words"
  shows "suffix_shaped text words"
  unfolding suffix_shaped_def
proof (intro conjI allI impI)
  show "length words = length text + 1" using assms by (simp add: settled_double_def)
next
  fix i assume i: "1 \<le> i \<and> i \<le> length text"
  with assms have "row_double P text best words i i" by (simp add: settled_double_def)
  then consider j where "j < i" "words ! i = slice text j i" | "words ! i = [text ! (i - 1)]"
    by (auto simp: row_double_def)
  then show "\<exists>j<i. words ! i = slice text j i"
  proof cases
    case 1 then show ?thesis by blast
  next
    case 2
    have "slice text (i - 1) (Suc (i - 1)) = [text ! (i - 1)]"
      by (rule slice_last) (use i in arith)
    with 2 i show ?thesis by (intro exI [of _ "i - 1"]) simp
  qed
qed

lemma viterbi_segment_double_result:
  "\<exists>best words ws.
      dp_tables_double text P = Inr (best, words) \<and> settled_double P text best words \<and>
      follows words (length text) ws \<and>
      viterbi_segment_double text P = Some (Inr (rev ws, best ! length text))"
proof -
  from dp_tables_double_settled [of "text" P]
  obtain best words where dp: "dp_tables_double text P = Inr (best, words)"
    and st: "settled_double P text best words" by blast
  have sh: "suffix_shaped text words" using st by (rule settled_double_suffix_shaped)
  have len: "length words = length text + 1" "length best = length text + 1"
    using st by (simp_all add: settled_double_def)
  from recover_follows [OF sh order_refl, of "[]"]
  obtain ws where ws: "recover words (int (length text)) [] = Some (Inr (0, rev ws))"
    "follows words (length text) ws" by auto
  have start: "int (length words) - 1 = int (length text)" using len by simp
  have "best \<noteq> []" using len by auto
  then have "getitem best (- 1) = Inr (best ! length text)"
    using getitem_minus_one [of best] len by simp
  then have "viterbi_segment_double text P = Some (Inr (rev ws, best ! length text))"
    by (simp add: viterbi_segment_double_def dp start ws(1))
  with dp st ws show ?thesis by blast
qed

lemma settled_double_bound:
  assumes "settled_double P text best words" "j < i" "i \<le> length text"
  shows "float_mul (P (slice text j i)) (best ! j) \<le> best ! i"
proof -
  have "row_double P text best words i i" using assms by (intro settled_double_row) auto
  with assms(2) show ?thesis by (simp add: row_double_def candidate_double_def)
qed

lemma settled_double_attained:
  assumes st: "settled_double P text best words" and P: "\<forall>w. 0 \<le> P w"
    and i: "1 \<le> i" "i \<le> length text"
  shows "best ! i = float_mul (P (words ! i)) (best ! (i - length (words ! i)))"
proof -
  have row: "row_double P text best words i i" using st i by (rule settled_double_row)
  have "candidate_double P text best i 0 = float_mul (P (slice text 0 i)) 1"
    using st by (simp add: candidate_double_def settled_double_def)
  moreover have "0 \<le> float_mul (P (slice text 0 i)) 1" using P by (simp add: float_mul_nonneg)
  ultimately have "\<not> candidate_double P text best i 0 < 0" by (simp add: not_less)
  with i(1) have "\<not> (\<forall>j<i. candidate_double P text best i j < 0)"
    by (metis less_eq_Suc_le One_nat_def)
  with row obtain j where j: "j < i" "words ! i = slice text j i"
    "candidate_double P text best i j = best ! i"
    by (auto simp: row_double_def)
  then have "length (words ! i) = i - j" using i(2) by (simp add: length_slice)
  with j(1) have "i - length (words ! i) = j" by simp
  with j show ?thesis by (simp add: candidate_double_def)
qed

lemma rounded_joint_snoc:
  "rounded_joint_probability P (ws @ [w]) = float_mul (P w) (rounded_joint_probability P ws)"
  by (simp add: rounded_joint_probability_def)

lemma rounded_joint_nonneg:
  assumes "\<forall>w. 0 \<le> P w"
  shows "0 \<le> rounded_joint_probability P ws"
proof (induction ws rule: rev_induct)
  case Nil
  show ?case by (simp add: rounded_joint_probability_def)
next
  case (snoc w ws)
  with assms show ?case by (simp add: rounded_joint_snoc float_mul_nonneg)
qed

lemma float_mul_le_one:
  assumes "0 \<le> p" "p \<le> 1" "0 \<le> b" "b \<le> 1"
  shows "float_mul p b \<le> 1"
proof -
  have "p * b \<le> 1" using assms by (simp add: mult_le_one)
  moreover have "0 \<le> p * b" using assms by simp
  ultimately have "round_double (p * b) \<le> round_double 1" by (intro round_double_mono)
  then show ?thesis by (simp add: float_mul_def round_double_one)
qed

lemma rounded_joint_le_one:
  assumes "\<forall>w. 0 \<le> P w \<and> P w \<le> 1"
  shows "0 \<le> rounded_joint_probability P ws \<and> rounded_joint_probability P ws \<le> 1"
proof (induction ws rule: rev_induct)
  case Nil
  show ?case by (simp add: rounded_joint_probability_def)
next
  case (snoc w ws)
  with assms show ?case by (simp add: rounded_joint_snoc float_mul_nonneg float_mul_le_one)
qed

lemma follows_rounded_joint:
  assumes rows: "\<forall>l. 1 \<le> l \<and> l \<le> n \<longrightarrow>
      best ! l = float_mul (P (words ! l)) (best ! (l - length (words ! l)))"
    and zero: "best ! 0 = 1"
  shows "follows words i ws \<Longrightarrow> i \<le> n \<Longrightarrow> rounded_joint_probability P (rev ws) = best ! i"
proof (induction ws arbitrary: i)
  case Nil
  then show ?case using zero by (simp add: rounded_joint_probability_def)
next
  case (Cons w ws)
  from Cons.prems(1) have "0 < i \<and> w = words ! i \<and> w \<noteq> [] \<and> length w \<le> i \<and>
      follows words (i - length w) ws" by auto
  then have i: "1 \<le> i" and w: "w = words ! i" and f: "follows words (i - length w) ws"
    by auto
  from Cons.IH [OF f] Cons.prems(2)
  have "rounded_joint_probability P (rev ws) = best ! (i - length w)" by simp
  moreover from rows i Cons.prems(2) w
  have "best ! i = float_mul (P w) (best ! (i - length w))" by simp
  ultimately show ?case by (simp add: rounded_joint_snoc)
qed

lemma rounded_best_upper_bound:
  assumes st: "settled_double P text best words" and P: "\<forall>w. 0 \<le> P w"
  shows "spec_segmentation ws (take i text) \<Longrightarrow> i \<le> length text \<Longrightarrow>
    rounded_joint_probability P ws \<le> best ! i"
proof (induction ws arbitrary: i rule: rev_induct)
  case Nil
  then have "i = 0" by (auto simp: spec_segmentation_def)
  with st show ?case by (simp add: rounded_joint_probability_def settled_double_def)
next
  case (snoc w ws)
  let ?j = "i - length w"
  from snoc.prems have eq: "concat ws @ w = take i text" and ne: "w \<noteq> []" "[] \<notin> set ws"
    by (auto simp: spec_segmentation_def)
  from eq have "length (concat ws) + length w = i" using snoc.prems(2)
    by (metis length_append length_take min.absorb2)
  then have lw: "length w \<le> i" and lc: "length (concat ws) = ?j" by simp_all
  have pre: "concat ws = take ?j text"
  proof -
    have "concat ws = take ?j (concat ws @ w)" using lc by simp
    also have "\<dots> = take ?j (take i text)" using eq by simp
    also have "\<dots> = take ?j text" by (simp add: min_def)
    finally show ?thesis .
  qed
  have wd: "w = slice text ?j i"
  proof -
    have "w = drop ?j (concat ws @ w)" using lc by simp
    also have "\<dots> = drop ?j (take i text)" using eq by simp
    also have "\<dots> = slice text ?j i" by (simp add: slice_def drop_take)
    finally show ?thesis .
  qed
  have "spec_segmentation ws (take ?j text)" using pre ne(2) by (simp add: spec_segmentation_def)
  from snoc.IH [OF this] snoc.prems(2)
  have ih: "rounded_joint_probability P ws \<le> best ! ?j" by simp
  have lt: "?j < i" using ne(1) lw by (cases w) auto
  have "rounded_joint_probability P (ws @ [w]) = float_mul (P w) (rounded_joint_probability P ws)"
    by (rule rounded_joint_snoc)
  also have "\<dots> \<le> float_mul (P w) (best ! ?j)"
    using P rounded_joint_nonneg [OF P, of ws] ih by (intro float_mul_mono) simp_all
  also have "\<dots> = float_mul (P (slice text ?j i)) (best ! ?j)" using wd by simp
  also have "\<dots> \<le> best ! i" using settled_double_bound [OF st lt snoc.prems(2)] .
  finally show ?case .
qed

subsection \<open>The model after the lookups\<close>







subsection \<open>The example models, evaluated\<close>

lemma tie_model_tables:
  "dp_tables ''ab'' tie_model = Inr ([1, 1 / 2, 1 / 4], ['''', ''a'', ''b''])"
  by (simp add: dp_tables_def fill_tables_def update_best_def
      initial_best_def initial_words_def pure_lookup_def getitem_def setitem_def slice_def
      tie_model_def upt_rec Let_def)

lemma tie_model_result:
  "viterbi_segment ''ab'' tie_model = Some (Inr ([''a'', ''b''], 1 / 4))"
  by code_simp


lemma zero_model_result:
  "viterbi_segment ''ab'' zero_model = Some (Inr ([''a'', ''b''], 0))"
  by code_simp

lemma pure_lookup_keeps: "\<forall>w. snd (pure_lookup P w) = P"
  by (simp add: pure_lookup_def)

lemma tie_model_with_result:
  "viterbi_segment_with pure_lookup ''ab'' tie_model =
     Some (Inr (([''a'', ''b''], 1 / 4), tie_model))"
proof -
  from viterbi_segment_with_result [where lookup = pure_lookup and mdl = tie_model,
      OF pure_lookup_keeps, of "''ab''"]
  obtain r where r: "viterbi_segment_with pure_lookup ''ab'' tie_model = Some (Inr (r, tie_model))"
    by blast
  with tie_model_result have "r = ([''a'', ''b''], 1 / 4)"
    by (simp add: viterbi_segment_def)
  with r show ?thesis by simp
qed

lemma near_one_tables:
  "dp_tables_double ''ab'' near_one_model =
     Inr ([1, 1 - 1 / 2 ^ 27, 1 - 1 / 2 ^ 26], ['''', ''a'', ''b''])"
  by (simp add: dp_tables_double_def update_best_double_def float_mul_def
      initial_best_def initial_words_def getitem_def setitem_def slice_def
      near_one_model_def upt_rec Let_def round_double_unit round_half_even_def)

lemma near_one_result:
  "viterbi_segment_double ''ab'' near_one_model = Some (Inr ([''a'', ''b''], 1 - 1 / 2 ^ 26))"
  by (simp add: viterbi_segment_double_def near_one_tables recover.simps getitem_def)

lemma near_one_range: "\<forall>w. 0 < near_one_model w \<and> near_one_model w \<le> 1"
  by (simp add: near_one_model_def)


section \<open>The claims\<close>

subsection \<open>Optimality of the table\<close>

text \<open>
  Claim C1, as amended. For every text and every model \<open>P\<close> that gives each token a
  probability in \<open>(0, 1]\<close>, the loops in binary64 arithmetic end without an exception on
  a table \<^verbatim>\<open>best\<close> with \<open>best ! 0 = 1\<close> in which, for every \<open>i\<close> up to the length of the
  text, \<open>best ! i\<close> lies between \<open>0\<close> and \<open>1\<close> and is the maximum, over the segmentations
  of the first \<open>i\<close> characters, of the product of the probabilities of the words as the
  code computes it: from left to right, each product rounded to binary64. The
  probability returned is \<open>best ! n\<close>, and the sequence returned is a segmentation of
  the text whose rounded product is that probability.
\<close>

theorem rounded_best_is_maximal:
  assumes P: "\<forall>w. 0 < P w \<and> P w \<le> 1"
  shows "\<exists>best words.
      dp_tables_double text P = Inr (best, words) \<and> length best = length text + 1 \<and>
      best ! 0 = 1 \<and>
      (\<forall>i. i \<le> length text \<longrightarrow>
         0 \<le> best ! i \<and> best ! i \<le> 1 \<and>
         (\<exists>ws. spec_segmentation ws (take i text) \<and>
               rounded_joint_probability P ws = best ! i) \<and>
         (\<forall>ws. spec_segmentation ws (take i text) \<longrightarrow>
               rounded_joint_probability P ws \<le> best ! i)) \<and>
      (\<exists>ws. viterbi_segment_double text P = Some (Inr (ws, best ! length text)) \<and>
         spec_segmentation ws text \<and> rounded_joint_probability P ws = best ! length text)"
proof -
  let ?n = "length text"
  from viterbi_segment_double_result [of "text" P]
  obtain best words ws where dp: "dp_tables_double text P = Inr (best, words)"
    and st: "settled_double P text best words"
    and f: "follows words ?n ws"
    and r: "viterbi_segment_double text P = Some (Inr (rev ws, best ! ?n))" by blast
  from P have P0: "\<forall>w. 0 \<le> P w" and P01: "\<forall>w. 0 \<le> P w \<and> P w \<le> 1"
    by (auto intro: less_imp_le)
  have sh: "suffix_shaped text words" using st by (rule settled_double_suffix_shaped)
  have zero: "best ! 0 = 1" and len: "length best = ?n + 1"
    using st by (simp_all add: settled_double_def)
  have rows: "\<forall>l. 1 \<le> l \<and> l \<le> ?n \<longrightarrow>
      best ! l = float_mul (P (words ! l)) (best ! (l - length (words ! l)))"
    using settled_double_attained [OF st P0] by blast
  have path: "spec_segmentation (rev vs) (take i text) \<and>
      rounded_joint_probability P (rev vs) = best ! i"
    if "follows words i vs" "i \<le> ?n" for i vs
    using follows_concat [OF sh that] follows_nonempty [OF that(1)]
      follows_rounded_joint [OF rows zero that]
    by (simp add: spec_segmentation_def)
  have "0 \<le> best ! i \<and> best ! i \<le> 1 \<and>
      (\<exists>ws. spec_segmentation ws (take i text) \<and> rounded_joint_probability P ws = best ! i) \<and>
      (\<forall>ws. spec_segmentation ws (take i text) \<longrightarrow> rounded_joint_probability P ws \<le> best ! i)"
    if i: "i \<le> ?n" for i
  proof -
    from recover_follows [OF sh i, of "[]"] obtain vs where "follows words i vs" by blast
    from path [OF this i]
    have at: "spec_segmentation (rev vs) (take i text)"
      "rounded_joint_probability P (rev vs) = best ! i" by simp_all
    from rounded_joint_le_one [OF P01, of "rev vs"] at(2)
    have "0 \<le> best ! i \<and> best ! i \<le> 1" by simp
    moreover have "\<forall>ws. spec_segmentation ws (take i text) \<longrightarrow>
        rounded_joint_probability P ws \<le> best ! i"
      using rounded_best_upper_bound [OF st P0 _ i] by blast
    ultimately show ?thesis using at by blast
  qed
  moreover from path [OF f order_refl]
  have "spec_segmentation (rev ws) text \<and> rounded_joint_probability P (rev ws) = best ! ?n"
    by simp
  ultimately show ?thesis using dp r zero len by blast
qed

theorem rounded_best_is_maximal_witness:
  "(\<forall>w. 0 < near_one_model w \<and> near_one_model w \<le> 1) \<and>
   dp_tables_double ''ab'' near_one_model =
     Inr ([1, 1 - 1 / 2 ^ 27, 1 - 1 / 2 ^ 26], ['''', ''a'', ''b'']) \<and>
   rounded_joint_probability near_one_model [''ab''] \<le> [1, 1 - 1 / 2 ^ 27, 1 - 1 / 2 ^ 26] ! 2 \<and>
   rounded_joint_probability near_one_model [''a'', ''b''] \<le>
     [1, 1 - 1 / 2 ^ 27, 1 - 1 / 2 ^ 26] ! 2 \<and>
   viterbi_segment_double ''ab'' near_one_model = Some (Inr ([''a'', ''b''], 1 - 1 / 2 ^ 26))"
proof -
  from rounded_best_is_maximal [OF near_one_range, of "''ab''"]
  obtain best words where dp: "dp_tables_double ''ab'' near_one_model = Inr (best, words)"
    and ub: "\<And>i ws. i \<le> length ''ab'' \<Longrightarrow> spec_segmentation ws (take i ''ab'') \<Longrightarrow>
      rounded_joint_probability near_one_model ws \<le> best ! i"
    by blast
  from dp have best: "best = [1, 1 - 1 / 2 ^ 27, 1 - 1 / 2 ^ 26]"
    by (simp add: near_one_tables)
  have "rounded_joint_probability near_one_model [''ab''] \<le> best ! 2"
    by (rule ub) (simp_all add: spec_segmentation_def)
  moreover have "rounded_joint_probability near_one_model [''a'', ''b''] \<le> best ! 2"
    by (rule ub) (simp_all add: spec_segmentation_def)
  ultimately show ?thesis
    unfolding best using near_one_range near_one_tables near_one_result by simp
qed

text \<open>
  Claim C1 as stated fails, the product being the exact one: under \<open>near_one_model\<close> the
  entry \<^verbatim>\<open>best[2]\<close> for the text \<^verbatim>\<open>"ab"\<close>, which is also the probability returned, is
  \<open>1 - 1 / 2 ^ 26\<close>; the segmentation \<^verbatim>\<open>["a", "b"]\<close> has the greater product
  \<open>1 - 1 / 2 ^ 26 + 1 / 2 ^ 54\<close>, and no segmentation has the product \<open>1 - 1 / 2 ^ 26\<close>.
\<close>

theorem exact_product_not_reached_counterexample:
  "dp_tables_double ''ab'' near_one_model =
     Inr ([1, 1 - 1 / 2 ^ 27, 1 - 1 / 2 ^ 26], ['''', ''a'', ''b'']) \<and>
   spec_segmentation [''a'', ''b''] ''ab'' \<and>
   [1, 1 - 1 / 2 ^ 27, 1 - 1 / 2 ^ 26] ! 2 < spec_joint_probability near_one_model [''a'', ''b''] \<and>
   viterbi_segment_double ''ab'' near_one_model = Some (Inr ([''a'', ''b''], 1 - 1 / 2 ^ 26)) \<and>
   spec_joint_probability near_one_model [''a'', ''b''] \<noteq> 1 - 1 / 2 ^ 26 \<and>
   spec_joint_probability near_one_model [''ab''] \<noteq> 1 - 1 / 2 ^ 26"
  using near_one_tables near_one_result
  by (simp add: spec_segmentation_def spec_joint_probability_def near_one_model_def)

subsection \<open>Reconstruction\<close>

text \<open>
  Claim C2. For every text and every model \<open>P\<close>, the function returns a sequence of
  words whose concatenation, in order, is the text.
\<close>

theorem reconstruction:
  "\<exists>ws p. viterbi_segment text P = Some (Inr (ws, p)) \<and> concat ws = text"
proof -
  from viterbi_segment_result [of "text" P]
  obtain best words ws where st: "settled P text best words"
    and f: "follows words (length text) ws"
    and r: "viterbi_segment text P = Some (Inr (rev ws, best ! length text))" by blast
  have "suffix_shaped text words" using st by (rule settled_suffix_shaped)
  from follows_concat [OF this f] have "concat (rev ws) = text" by simp
  with r show ?thesis by blast
qed

theorem reconstruction_witness:
  "viterbi_segment ''ab'' tie_model = Some (Inr ([''a'', ''b''], 1 / 4)) \<and>
   concat [''a'', ''b''] = ''ab''"
  using reconstruction [of "''ab''" tie_model] tie_model_result by simp

subsection \<open>Ties\<close>




subsection \<open>Initial tables\<close>

text \<open>
  Claim C4, as amended. The loops start on the tables \<open>initial_best\<close> and
  \<open>initial_words\<close>: \<^verbatim>\<open>best[0]\<close> is \<open>1\<close> and every other entry of \<^verbatim>\<open>best\<close> is \<open>0\<close>;
  \<^verbatim>\<open>words[0]\<close> is the empty string, and for every position \<open>i > 0\<close> the entry
  \<^verbatim>\<open>words[i]\<close> is the one-character string made of the character of the text at
  \<open>i - 1\<close>, not an empty sentinel.
\<close>

theorem initial_tables:
  "fill_tables lookup text m =
     for_each (\<lambda>i. for_each (update_best lookup text i) [0..<i]) [0..<length text + 1]
       (initial_best (length text), initial_words text, m) \<and>
   initial_best (length text) ! 0 = 1 \<and> initial_words text ! 0 = [] \<and>
   (\<forall>i. 1 \<le> i \<and> i \<le> length text \<longrightarrow>
      initial_best (length text) ! i = 0 \<and> initial_words text ! i = [text ! (i - 1)])"
  by (simp add: fill_tables_def Let_def initial_best_nth initial_words_nth)

theorem initial_tables_witness:
  "initial_best (length ''ab'') ! 0 = 1 \<and> initial_words ''ab'' ! 0 = [] \<and>
   initial_best (length ''ab'') ! 2 = 0 \<and> initial_words ''ab'' ! 2 = ''b''"
  using initial_tables [of pure_lookup "''ab''" half_model] by simp

text \<open>
  Claim C4 as stated fails: for the text \<^verbatim>\<open>"a"\<close> the initial entry \<^verbatim>\<open>words[1]\<close> is not
  the empty string.
\<close>

theorem initial_words_not_empty_counterexample:
  "initial_words ''a'' ! 1 \<noteq> []"
  by (simp add: initial_words_def)

subsection \<open>Bounds of the probability\<close>



subsection \<open>The empty text\<close>

text \<open>
  Claim C6. On the empty text the function returns the empty sequence and the
  probability \<open>1\<close>, for every model; it neither raises nor runs forever.
\<close>

theorem empty_text_result: "viterbi_segment [] P = Some (Inr ([], 1))"
  by (simp add: viterbi_segment_def viterbi_segment_with_def fill_tables_def initial_best_def
      initial_words_def recover.simps getitem_def)

theorem empty_text_result_witness: "viterbi_segment [] half_model = Some (Inr ([], 1))"
  using empty_text_result [of half_model] by simp

subsection \<open>Determinism and the model object\<close>

text \<open>
  Claim C7. When the lookups of the model leave the model as it is, two calls made one
  after the other on the same text and the same model object both return normally, with
  the same sequence and the same probability.
\<close>

theorem repeated_calls_agree:
  assumes "\<forall>w. snd (lookup m w) = m"
  shows "\<exists>r. two_calls lookup text m = Some (Inr r, Inr r)"
proof -
  from viterbi_segment_with_result [where lookup = lookup and mdl = m, OF assms, of "text"]
  obtain r where "viterbi_segment_with lookup text m = Some (Inr (r, m))" by blast
  then have "two_calls lookup text m = Some (Inr r, Inr r)"
    by (simp add: two_calls_def)
  then show ?thesis by blast
qed

theorem repeated_calls_agree_witness:
  "(\<forall>w. snd (pure_lookup tie_model w) = tie_model) \<and>
   two_calls pure_lookup ''ab'' tie_model =
     Some (Inr ([''a'', ''b''], 1 / 4), Inr ([''a'', ''b''], 1 / 4))"
proof -
  from repeated_calls_agree [where lookup = pure_lookup and m = tie_model,
      OF pure_lookup_keeps, of "''ab''"]
  obtain r where r: "two_calls pure_lookup ''ab'' tie_model = Some (Inr r, Inr r)" by blast
  then have "r = ([''a'', ''b''], 1 / 4)"
    by (simp add: two_calls_def tie_model_with_result)
  with r pure_lookup_keeps show ?thesis by simp
qed




subsection \<open>Termination of the recovery\<close>

text \<open>
  Claim C9. For every text and every model, after the loops each entry \<open>words ! i\<close> with
  \<open>1 \<le> i \<le> n\<close> is \<^verbatim>\<open>text[j:i]\<close> for some \<open>j < i\<close>: a non-empty suffix of the first \<open>i\<close>
  characters. The \<^verbatim>\<open>while\<close> loop started at \<^verbatim>\<open>len(words) - 1\<close> therefore ends, without an
  exception, in a state whose position is exactly \<open>0\<close>, and every word it reads is not
  empty and not longer than the position where it is read (\<open>follows\<close>).
\<close>

theorem words_are_suffixes:
  "\<exists>best words ws.
      dp_tables text P = Inr (best, words) \<and>
      (\<forall>i. 1 \<le> i \<and> i \<le> length text \<longrightarrow>
         (\<exists>j<i. words ! i = slice text j i) \<and> words ! i \<noteq> [] \<and>
         take (i - length (words ! i)) text @ words ! i = take i text) \<and>
      recover words (int (length words) - 1) [] = Some (Inr (0, rev ws)) \<and>
      follows words (length text) ws"
proof -
  from viterbi_segment_result [of "text" P]
  obtain best words ws where dp: "dp_tables text P = Inr (best, words)"
    and st: "settled P text best words"
    and rec: "recover words (int (length words) - 1) [] = Some (Inr (0, rev ws))"
    and f: "follows words (length text) ws" by blast
  have sh: "suffix_shaped text words" using st by (rule settled_suffix_shaped)
  have "(\<exists>j<i. words ! i = slice text j i) \<and> words ! i \<noteq> [] \<and>
      take (i - length (words ! i)) text @ words ! i = take i text"
    if i: "1 \<le> i \<and> i \<le> length text" for i
  proof -
    from i have i1: "1 \<le> i" and i2: "i \<le> length text" by simp_all
    note w = suffix_shaped_word [OF sh i1 i2]
    have "take (i - length (words ! i)) text @ slice text (i - length (words ! i)) i = take i text"
      by (rule take_append_slice) simp
    with w(3) have "take (i - length (words ! i)) text @ words ! i = take i text" by simp
    moreover from sh i have "\<exists>j<i. words ! i = slice text j i" by (simp add: suffix_shaped_def)
    ultimately show ?thesis using w(1) by blast
  qed
  with dp rec f show ?thesis by blast
qed

theorem words_are_suffixes_witness:
  "dp_tables ''ab'' tie_model = Inr ([1, 1 / 2, 1 / 4], ['''', ''a'', ''b'']) \<and>
   recover ['''', ''a'', ''b''] (int (length ['''', ''a'', ''b'']) - 1) [] =
     Some (Inr (0, [''a'', ''b''])) \<and>
   follows ['''', ''a'', ''b''] (length ''ab'') [''b'', ''a'']"
proof -
  from words_are_suffixes [of "''ab''" tie_model]
  obtain ws where "recover ['''', ''a'', ''b''] (int (length ['''', ''a'', ''b'']) - 1) [] =
      Some (Inr (0, rev ws))" "follows ['''', ''a'', ''b''] (length ''ab'') ws"
    by (auto simp: tie_model_tables)
  moreover have "recover ['''', ''a'', ''b''] (int (length ['''', ''a'', ''b'']) - 1) [] =
      Some (Inr (0, [''a'', ''b'']))"
    by (simp add: recover.simps getitem_def)
  ultimately show ?thesis using tie_model_tables by (auto simp: rev_swap [symmetric] simp del: follows.simps)
qed

text \<open>
  Claim C10, as amended. For every model whatsoever the \<^verbatim>\<open>while\<close> loop never reads an
  empty word and the function returns normally. Under the model that gives every token
  the probability \<open>0\<close> the function returns the segmentation into single characters;
  the probability returned is \<open>0\<close> when the text is not empty and \<open>1\<close> when it is.
\<close>

theorem never_reads_empty_word:
  "(\<exists>best words ws p.
      dp_tables text P = Inr (best, words) \<and>
      recover words (int (length words) - 1) [] = Some (Inr (0, rev ws)) \<and>
      follows words (length text) ws \<and> [] \<notin> set ws \<and>
      viterbi_segment text P = Some (Inr (rev ws, p))) \<and>
   viterbi_segment text zero_model =
     Some (Inr (map (\<lambda>c. [c]) text, if text = [] then 1 else 0))"
proof
  from viterbi_segment_result [of "text" P]
  obtain best words ws where dp: "dp_tables text P = Inr (best, words)"
    and rec: "recover words (int (length words) - 1) [] = Some (Inr (0, rev ws))"
    and f: "follows words (length text) ws"
    and r: "viterbi_segment text P = Some (Inr (rev ws, best ! length text))" by blast
  from f have "[] \<notin> set ws" by (rule follows_nonempty)
  with dp rec f r show "\<exists>best words ws p.
      dp_tables text P = Inr (best, words) \<and>
      recover words (int (length words) - 1) [] = Some (Inr (0, rev ws)) \<and>
      follows words (length text) ws \<and> [] \<notin> set ws \<and>
      viterbi_segment text P = Some (Inr (rev ws, p))" by blast
next
  let ?n = "length text"
  from viterbi_segment_result [of "text" zero_model]
  obtain best words ws where st: "settled zero_model text best words"
    and f: "follows words ?n ws"
    and r: "viterbi_segment text zero_model = Some (Inr (rev ws, best ! ?n))" by blast
  have sh: "suffix_shaped text words" using st by (rule settled_suffix_shaped)
  have "\<forall>w\<in>set (rev ws). length w = 1"
  proof
    fix w assume "w \<in> set (rev ws)"
    then have "w \<in> set ws" by simp
    from follows_entries [OF f this] obtain l where l: "1 \<le> l" "l \<le> ?n" "w = words ! l"
      by blast
    with settled_zero_model [OF st l(1,2)] show "length w = 1" by simp
  qed
  then have "rev ws = map (\<lambda>c. [c]) (concat (rev ws))" by (rule singletons_concat)
  moreover have "concat (rev ws) = text" using follows_concat [OF sh f] by simp
  ultimately have seq: "rev ws = map (\<lambda>c. [c]) text" by simp
  have "best ! ?n = (if text = [] then 1 else 0)"
  proof (cases "text = []")
    case True
    with st show ?thesis by (simp add: settled_def)
  next
    case False
    then have "1 \<le> ?n" by (cases "text") auto
    from settled_zero_model [OF st this order_refl] False show ?thesis by simp
  qed
  with r seq show "viterbi_segment text zero_model =
     Some (Inr (map (\<lambda>c. [c]) text, if text = [] then 1 else 0))" by simp
qed

theorem never_reads_empty_word_witness:
  "viterbi_segment ''ab'' zero_model = Some (Inr ([''a'', ''b''], 0)) \<and>
   viterbi_segment ''ab'' tie_model = Some (Inr ([''a'', ''b''], 1 / 4)) \<and>
   [] \<notin> set [''a'', ''b'']"
  using never_reads_empty_word [of "''ab''" tie_model] tie_model_result
  by simp

text \<open>
  Claim C10 as stated fails on the empty text: under \<open>zero_model\<close> the probability
  returned is \<open>1\<close>, not \<open>0\<close>.
\<close>

theorem empty_text_zero_model_counterexample:
  "viterbi_segment [] zero_model = Some (Inr ([], 1)) \<and>
   viterbi_segment [] zero_model \<noteq> Some (Inr ([], 0))"
  by (simp add: viterbi_segment_def viterbi_segment_with_def fill_tables_def initial_best_def
      initial_words_def recover.simps getitem_def)

end
